theory Spec2Isabelle
  imports Complex_Main "HOL-Library.Product_Lexorder"
begin

section \<open>Errors\<close>

text \<open>
  The exceptions the planner can raise: \<open>ValueError\<close> carries its message (the search
  raises \<open>ValueError('No Path Found')\<close>, \<open>range\<close> raises one on a zero step),
  \<open>KeyError\<close> is a dictionary lookup of a missing key, \<open>IndexError\<close> a list index out
  of range, \<open>ZeroDivisionError\<close> a division by zero.
\<close>

datatype error = ValueError string | KeyError | IndexError | ZeroDivisionError

section \<open>The grid collaborator\<close>

text \<open>
  Modelled from the spec: the class \<open>CozGrid\<close> (module \<open>grid\<close>) is imported by
  \<open>planning.py\<close> and not part of it. The record keeps the parts the planner reads and
  writes: the start cell, the goal list, the obstacle set (insertion is idempotent), the
  trace of visited cells, the stored path and the scale factor. The neighbour query
  \<open>getNeighbors\<close> is a parameter of every function that needs it.
\<close>

record 'c grid =
  getStart :: 'c
  getGoals :: "'c list"
  obstacles :: "'c set"
  visited :: "'c list"
  getPath :: "'c list"
  scale :: int

definition addVisited :: "'c grid \<Rightarrow> 'c \<Rightarrow> 'c grid" where
  "addVisited g c = g\<lparr>visited := visited g @ [c]\<rparr>"

definition setPath :: "'c grid \<Rightarrow> 'c list \<Rightarrow> 'c grid" where
  "setPath g p = g\<lparr>getPath := p\<rparr>"

definition addObstacle :: "'c grid \<Rightarrow> 'c \<Rightarrow> 'c grid" where
  "addObstacle g c = g\<lparr>obstacles := insert c (obstacles g)\<rparr>"

section \<open>Path reconstruction\<close>

text \<open>
  \<open>came_from\<close> maps a cell to its predecessor; the start is mapped to Python's
  \<open>None\<close>, here the inner \<open>None\<close>. The loop appends \<open>current\<close> and follows the
  predecessor until it meets \<open>start\<close>. A missing key raises \<open>KeyError\<close>. When the
  predecessor is Python's \<open>None\<close>, the next iteration looks \<open>None\<close> up, which is a
  \<open>KeyError\<close> as well. The loop has no other exit: the result \<open>None\<close> of the model is
  a loop that never returns.
\<close>

partial_function (option) reconstruct_loop ::
  "('c \<rightharpoonup> 'c option) \<Rightarrow> 'c \<Rightarrow> 'c \<Rightarrow> 'c list \<Rightarrow> (error + 'c list) option" where
  "reconstruct_loop came_from start current path =
     (if current \<noteq> start then
        (case came_from current of
           None \<Rightarrow> Some (Inl KeyError)
         | Some None \<Rightarrow> Some (Inl KeyError)
         | Some (Some prev) \<Rightarrow> reconstruct_loop came_from start prev (path @ [current]))
      else Some (Inr path))"

declare reconstruct_loop.simps [code]

definition reconstruct_path ::
  "('c \<rightharpoonup> 'c option) \<Rightarrow> 'c \<Rightarrow> 'c \<Rightarrow> (error + 'c list) option" where
  "reconstruct_path came_from start goal =
     (case reconstruct_loop came_from start goal [] of
        None \<Rightarrow> None
      | Some (Inl e) \<Rightarrow> Some (Inl e)
      | Some (Inr path) \<Rightarrow> Some (Inr (rev (path @ [start]))))"

section \<open>The A* search\<close>

text \<open>
  The search state of one invocation: the priority queue (a bag of pairs of priority and
  cell, kept as a list; \<open>get\<close> removes the least pair in the lexicographic order of
  tuples), the predecessor dictionary and the cost dictionary. Costs and priorities are
  real numbers.
\<close>

record 'c search_state =
  frontier :: "(real \<times> 'c) list"
  came_from :: "'c \<rightharpoonup> 'c option"
  cost_so_far :: "'c \<rightharpoonup> real"

text \<open>The body of the \<open>for\<close> loop over the neighbours of \<open>current\<close> (lines 38 to 45).\<close>

definition relax ::
  "('c \<Rightarrow> 'c \<Rightarrow> real) \<Rightarrow> 'c \<Rightarrow> 'c \<Rightarrow> 'c \<times> real \<Rightarrow> 'c search_state \<Rightarrow> error + 'c search_state" where
  "relax heuristic goal_pose current next st =
     (let next_pose = fst next; next_weight = snd next in
      case cost_so_far st current of
        None \<Rightarrow> Inl KeyError
      | Some c \<Rightarrow>
          (let new_cost = c + next_weight in
           if (case cost_so_far st next_pose of None \<Rightarrow> True | Some old \<Rightarrow> new_cost < old)
           then Inr (st\<lparr>cost_so_far := (cost_so_far st)(next_pose \<mapsto> new_cost),
                        frontier := frontier st @ [(new_cost + heuristic next_pose goal_pose, next_pose)],
                        came_from := (came_from st)(next_pose \<mapsto> Some current)\<rparr>)
           else Inr st))"

fun expand ::
  "('c \<Rightarrow> 'c \<Rightarrow> real) \<Rightarrow> 'c \<Rightarrow> 'c \<Rightarrow> ('c \<times> real) list \<Rightarrow> 'c search_state \<Rightarrow> error + 'c search_state" where
  "expand heuristic goal_pose current [] st = Inr st"
| "expand heuristic goal_pose current (next # rest) st =
     (case relax heuristic goal_pose current next st of
        Inl e \<Rightarrow> Inl e
      | Inr st' \<Rightarrow> expand heuristic goal_pose current rest st')"

text \<open>
  The \<open>while\<close> loop (lines 28 to 47). It ends with the error when the frontier is
  empty, and with the grid holding the reconstructed path when the goal is taken from the
  frontier.
\<close>

partial_function (option) astar_loop ::
  "('c \<Rightarrow> ('c \<times> real) list) \<Rightarrow> ('c \<Rightarrow> 'c \<Rightarrow> real) \<Rightarrow> 'c \<Rightarrow> 'c::linorder \<Rightarrow>
   'c search_state \<Rightarrow> 'c grid \<Rightarrow> (error + 'c grid) option" where
  "astar_loop getNeighbors heuristic start_pose goal_pose st grid =
     (if frontier st = [] then Some (Inl (ValueError ''No Path Found''))
      else
        (let top = min_list (frontier st);
             current = snd top;
             st1 = st\<lparr>frontier := remove1 top (frontier st)\<rparr>;
             grid1 = addVisited grid current
         in if current = goal_pose then
              (case reconstruct_path (came_from st1) start_pose goal_pose of
                 None \<Rightarrow> None
               | Some (Inl e) \<Rightarrow> Some (Inl e)
               | Some (Inr path) \<Rightarrow> Some (Inr (setPath grid1 path)))
            else
              (case expand heuristic goal_pose current (getNeighbors current) st1 of
                 Inl e \<Rightarrow> Some (Inl e)
               | Inr st2 \<Rightarrow> astar_loop getNeighbors heuristic start_pose goal_pose st2 grid1)))"

declare astar_loop.simps [code]

definition astar_init :: "'c \<Rightarrow> 'c search_state" where
  "astar_init start_pose =
     \<lparr>frontier = [(0, start_pose)],
      came_from = [start_pose \<mapsto> None],
      cost_so_far = [start_pose \<mapsto> 0]\<rparr>"

definition astar ::
  "('c \<Rightarrow> ('c \<times> real) list) \<Rightarrow> ('c \<Rightarrow> 'c \<Rightarrow> real) \<Rightarrow> 'c::linorder grid \<Rightarrow> (error + 'c grid) option" where
  "astar getNeighbors heuristic grid =
     (case getGoals grid of
        [] \<Rightarrow> Some (Inl IndexError)
      | goal_pose # _ \<Rightarrow>
          astar_loop getNeighbors heuristic (getStart grid) goal_pose (astar_init (getStart grid)) grid)"

section \<open>The heuristic\<close>

definition heuristic :: "real \<times> real \<Rightarrow> real \<times> real \<Rightarrow> real" where
  "heuristic current goal =
     (let (current_x, current_y) = current; (goal_x, goal_y) = goal
      in sqrt ((current_x - goal_x)\<^sup>2 + (current_y - goal_y)\<^sup>2))"

section \<open>Projecting a cube onto the grid\<close>

text \<open>
  A cube as the robot reports it: its identity, the position of its centre and its heading
  in degrees. The identities are those of the robot's library: \<open>LightCube1Id\<close> is 1.
\<close>

record cube =
  cube_id :: nat
  pose_x :: real
  pose_y :: real
  angle_z_degrees :: real

definition LightCube1Id :: nat where
  "LightCube1Id = 1"

definition radians :: "real \<Rightarrow> real" where
  "radians d = d * pi / 180"

definition rotate_point :: "real \<Rightarrow> real \<Rightarrow> real \<Rightarrow> real \<times> real" where
  "rotate_point x y heading_deg =
     (let c = cos (radians heading_deg);
          s = sin (radians heading_deg);
          xr = x * c + y * - s;
          yr = x * s + y * c
      in (xr, yr))"

text \<open>Python's \<open>range(lo, hi, step)\<close> on integers.\<close>

definition py_range :: "int \<Rightarrow> int \<Rightarrow> int \<Rightarrow> error + int list" where
  "py_range lo hi step =
     (if step = 0 then Inl (ValueError ''range() arg 3 must not be zero'')
      else if 0 < step then
        Inr (map (\<lambda>k. lo + int k * step) [0 ..< nat ((hi - lo + step - 1) div step)])
      else
        Inr (map (\<lambda>k. lo + int k * step) [0 ..< nat ((lo - hi - step - 1) div (- step))]))"

definition add_obstacle :: "(real \<times> real) grid \<Rightarrow> cube \<Rightarrow> error + (real \<times> real) grid" where
  "add_obstacle grid cube =
     (let cube_size = 50 in
      case py_range (- cube_size) (cube_size + 1) (scale grid) of
        Inl e \<Rightarrow> Inl e
      | Inr offsets \<Rightarrow>
          Inr (fold (\<lambda>x g.
                 fold (\<lambda>y g'.
                   (let (obstacle_x, obstacle_y) =
                          rotate_point (of_int x) (of_int y) (angle_z_degrees cube)
                    in addObstacle g'
                         ((pose_x cube + obstacle_x) / of_int (scale g'),
                          (pose_y cube + obstacle_y) / of_int (scale g'))))
                   offsets g)
               offsets grid))"

definition get_goal :: "(real \<times> real) grid \<Rightarrow> cube \<Rightarrow> error + (real \<times> real) grid" where
  "get_goal grid cube =
     (let cube_size = 50;
          (goal_x, goal_y) = rotate_point 0 (- cube_size) (angle_z_degrees cube)
      in if scale grid = 0 then Inl ZeroDivisionError
         else Inr (addObstacle grid
                     ((pose_x cube + goal_x) / of_int (scale grid),
                      (pose_y cube + goal_y) / of_int (scale grid))))"

section \<open>The behaviour loop\<close>

text \<open>
  The robot is an output channel: the loop's state keeps the commands issued so far. The
  cube observer is an input: each iteration of the loop receives what
  \<open>wait_for_observed_light_cube\<close> returned, a cube or nothing.
\<close>

datatype light = blue_light | red_light

datatype command =
    SayText string
  | TurnInPlace real
  | GoToPose real real real
  | SetLights nat light

record behavior_state =
  grid :: "(real \<times> real) grid"
  path_index :: nat
  path :: "(real \<times> real) list"
  found_goal :: bool
  commands :: "command list"

datatype 'a flow = Continue 'a | Break 'a

definition search_cube :: "cube option \<Rightarrow> command list \<times> cube option" where
  "search_cube observed =
     (case observed of
        Some cube \<Rightarrow> ([SayText ''searching'', SayText ''Found a Cube''], Some cube)
      | None \<Rightarrow> ([SayText ''searching''], None))"

text \<open>
  Lines 114 to 126: the test for the end of the path, then the move toward the next
  waypoint. After the turn in place there is no jump to the next iteration, so the lines
  121 and 122 index the path all the same. The index is not assigned in these lines.
\<close>

definition follow :: "behavior_state \<Rightarrow> error + behavior_state flow" where
  "follow st =
     (if length (path st) \<le> path_index st \<and> found_goal st then
        Inr (Break (st\<lparr>commands := commands st @ [SayText ''Arrived'']\<rparr>))
      else
        (let st1 = (if length (path st) \<le> path_index st
                    then st\<lparr>commands := commands st @ [TurnInPlace 30]\<rparr> else st);
             p = getPath (grid st1)
         in if path_index st1 + 1 < length p then
              (let current_pose = fst (p ! path_index st1);
                   next_pose = fst (p ! (path_index st1 + 1));
                   x = (next_pose - current_pose) * of_int (scale (grid st1));
                   y = (next_pose - current_pose) * of_int (scale (grid st1));
                   degree = (if x = 0 then 0 else arctan (y / x))
               in Inr (Continue (st1\<lparr>commands := commands st1 @ [GoToPose x y degree]\<rparr>)))
            else Inl IndexError))"

text \<open>Lines 98 to 106: the cube is registered, and classified by its identity.\<close>

definition register_cube ::
  "behavior_state \<Rightarrow> cube \<Rightarrow> error + behavior_state" where
  "register_cube st new_cube =
     (case add_obstacle (grid st) new_cube of
        Inl e \<Rightarrow> Inl e
      | Inr g1 \<Rightarrow>
          if cube_id new_cube = LightCube1Id then
            (case get_goal g1 new_cube of
               Inl e \<Rightarrow> Inl e
             | Inr g2 \<Rightarrow>
                 Inr (st\<lparr>grid := g2, found_goal := True,
                         commands := commands st @
                           [SetLights (cube_id new_cube) blue_light, SayText ''Found the Goal'']\<rparr>))
          else
            Inr (st\<lparr>grid := g1,
                    commands := commands st @
                      [SetLights (cube_id new_cube) red_light, SayText ''Found an Obstacle'']\<rparr>))"

text \<open>One iteration of the \<open>while\<close> loop (lines 96 to 126).\<close>

definition cozmoBehavior_step ::
  "((real \<times> real) grid \<Rightarrow> real \<times> real \<Rightarrow> ((real \<times> real) \<times> real) list) \<Rightarrow>
   behavior_state \<Rightarrow> cube option \<Rightarrow> (error + behavior_state flow) option" where
  "cozmoBehavior_step getNeighbors st observed =
     (let (said, found) = search_cube observed;
          st0 = st\<lparr>commands := commands st @ said\<rparr>
      in case found of
           None \<Rightarrow> Some (follow st0)
         | Some new_cube \<Rightarrow>
             (case register_cube st0 new_cube of
                Inl e \<Rightarrow> Some (Inl e)
              | Inr st1 \<Rightarrow>
                  (case astar (getNeighbors (grid st1)) heuristic (grid st1) of
                     None \<Rightarrow> None
                   | Some (Inl e) \<Rightarrow> Some (Inl e)
                   | Some (Inr g) \<Rightarrow>
                       Some (follow (st1\<lparr>grid := g, path_index := 0, path := getPath g,
                                         commands := commands st1 @ [SayText ''Replanning'']\<rparr>)))))"

text \<open>
  The loop runs once for each poll of the observer made before the stop event is set; the
  list holds what the polls returned.
\<close>

fun behavior_loop ::
  "((real \<times> real) grid \<Rightarrow> real \<times> real \<Rightarrow> ((real \<times> real) \<times> real) list) \<Rightarrow>
   behavior_state \<Rightarrow> cube option list \<Rightarrow> (error + behavior_state) option" where
  "behavior_loop getNeighbors st [] = Some (Inr st)"
| "behavior_loop getNeighbors st (observed # rest) =
     (case cozmoBehavior_step getNeighbors st observed of
        None \<Rightarrow> None
      | Some (Inl e) \<Rightarrow> Some (Inl e)
      | Some (Inr (Break st')) \<Rightarrow> Some (Inr st')
      | Some (Inr (Continue st')) \<Rightarrow> behavior_loop getNeighbors st' rest)"

definition cozmoBehavior ::
  "((real \<times> real) grid \<Rightarrow> real \<times> real \<Rightarrow> ((real \<times> real) \<times> real) list) \<Rightarrow>
   (real \<times> real) grid \<Rightarrow> cube option list \<Rightarrow> (error + behavior_state) option" where
  "cozmoBehavior getNeighbors g observations =
     (case astar (getNeighbors g) heuristic g of
        None \<Rightarrow> None
      | Some (Inl e) \<Rightarrow> Some (Inl e)
      | Some (Inr g1) \<Rightarrow>
          behavior_loop getNeighbors
            \<lparr>grid = g1, path_index = 0, path = getPath g1, found_goal = False,
             commands = [SayText ''Game is on'']\<rparr>
            observations)"

section \<open>A small grid for concrete runs\<close>

text \<open>
  Two free cells side by side: the start \<open>(0, 0)\<close> and the goal \<open>(1, 0)\<close>, joined by
  an edge of weight 1 that is there as long as the goal cell is not an obstacle. The
  cubes of the runs stand at \<open>(500, 500)\<close>, far from both cells.
\<close>

definition demo_neighbors ::
  "(real \<times> real) grid \<Rightarrow> real \<times> real \<Rightarrow> ((real \<times> real) \<times> real) list" where
  "demo_neighbors g c =
     filter (\<lambda>(n, w). n \<notin> obstacles g) (if c = (0, 0) then [((1, 0), 1)] else [])"

definition demo_grid :: "(real \<times> real) grid" where
  "demo_grid =
     \<lparr>getStart = (0, 0), getGoals = [(1, 0)], obstacles = {}, visited = [],
      getPath = [(0, 0), (1, 0)], scale = 25\<rparr>"

definition demo_state :: behavior_state where
  "demo_state =
     \<lparr>grid = demo_grid, path_index = 0, path = [(0, 0), (1, 0)],
      found_goal = False, commands = []\<rparr>"

definition demo_cube :: "nat \<Rightarrow> cube" where
  "demo_cube i = \<lparr>cube_id = i, pose_x = 500, pose_y = 500, angle_z_degrees = 0\<rparr>"

definition demo_block :: "(real \<times> real) set" where
  "demo_block = (\<lambda>(i, j). (real_of_int i, real_of_int j)) ` ({18..22} \<times> {18..22})"



section \<open>Predecessor chains\<close>

text \<open>
  \<open>links came_from a bs\<close>: every cell of \<open>bs\<close> has its left neighbour in \<open>a # bs\<close> as
  predecessor. With \<open>a\<close> the start, \<open>a # bs\<close> is the chain that leads from the start to
  the last cell of \<open>bs\<close>.
\<close>

primrec links :: "('c \<rightharpoonup> 'c option) \<Rightarrow> 'c \<Rightarrow> 'c list \<Rightarrow> bool" where
  "links cf a [] = True"
| "links cf a (b # bs) = (cf b = Some (Some a) \<and> links cf b bs)"


section \<open>Walks, costs and reachability\<close>

text \<open>
  A walk from a cell is a list of edges, each taken from the neighbour list of the cell
  reached so far; an edge is a pair of the cell it leads to and its weight. The goal is
  reachable from the start when a walk from the start ends at the goal, and the cost of a
  walk is the sum of its weights.
\<close>

primrec walk :: "('c \<Rightarrow> ('c \<times> real) list) \<Rightarrow> 'c \<Rightarrow> ('c \<times> real) list \<Rightarrow> bool" where
  "walk nb a [] = True"
| "walk nb a (e # es) = (e \<in> set (nb a) \<and> walk nb (fst e) es)"

definition walk_end :: "'c \<Rightarrow> ('c \<times> real) list \<Rightarrow> 'c" where
  "walk_end a es = last (a # map fst es)"

definition walk_cost :: "('c \<times> real) list \<Rightarrow> real" where
  "walk_cost es = sum_list (map snd es)"

text \<open>
  The grids of the data model: finitely many cells, closed under the neighbour query, and
  every edge weight positive.
\<close>

definition grid_graph :: "('c \<Rightarrow> ('c \<times> real) list) \<Rightarrow> 'c set \<Rightarrow> bool" where
  "grid_graph nb S \<longleftrightarrow> finite S \<and> (\<forall>a\<in>S. \<forall>e\<in>set (nb a). fst e \<in> S \<and> 0 < snd e)"

definition tri_neighbors :: "nat \<Rightarrow> (nat \<times> real) list" where
  "tri_neighbors n = (if n = 0 then [(1, 1), (2, 4)] else if n = 1 then [(2, 1)] else [])"

definition tri_grid :: "nat list \<Rightarrow> nat grid" where
  "tri_grid gs =
     \<lparr>getStart = 0, getGoals = gs, obstacles = {}, visited = [], getPath = [], scale = 25\<rparr>"

section \<open>Invariants of the search\<close>

text \<open>
  \<open>good\<close>: a walk from the start without a repeated cell, each of whose prefixes costs
  at least what is stored for the cell it ends at. \<open>cost_inv\<close>: every stored cost is the
  cost of such a walk to its cell. \<open>below\<close>: every stored cost is still stored, with the
  same or a lower value.
\<close>

definition good :: "('c \<Rightarrow> ('c \<times> real) list) \<Rightarrow> 'c \<Rightarrow> ('c \<rightharpoonup> real) \<Rightarrow> ('c \<times> real) list \<Rightarrow> bool" where
  "good nb start cs es \<longleftrightarrow>
     walk nb start es \<and> distinct (start # map fst es) \<and>
     (\<forall>k\<le>length es. \<exists>d. cs (walk_end start (take k es)) = Some d \<and> d \<le> walk_cost (take k es))"

definition cost_inv :: "('c \<Rightarrow> ('c \<times> real) list) \<Rightarrow> 'c \<Rightarrow> ('c \<rightharpoonup> real) \<Rightarrow> bool" where
  "cost_inv nb start cs \<longleftrightarrow>
     (\<forall>n d. cs n = Some d \<longrightarrow> (\<exists>es. good nb start cs es \<and> walk_end start es = n \<and> walk_cost es = d))"

definition below :: "('c \<rightharpoonup> real) \<Rightarrow> ('c \<rightharpoonup> real) \<Rightarrow> bool" where
  "below cs cs' \<longleftrightarrow> (\<forall>n d. cs n = Some d \<longrightarrow> (\<exists>d'. cs' n = Some d' \<and> d' \<le> d))"

text \<open>
  The costs of the walks of at most \<open>card S\<close> edges are finitely many. The measure of
  the loop counts the frontier entries and, for every cell, the values below its stored
  cost.
\<close>

definition edges :: "('c \<Rightarrow> ('c \<times> real) list) \<Rightarrow> 'c set \<Rightarrow> ('c \<times> real) set" where
  "edges nb S = (\<Union>a\<in>S. set (nb a))"

definition cost_values :: "('c \<Rightarrow> ('c \<times> real) list) \<Rightarrow> 'c set \<Rightarrow> real set" where
  "cost_values nb S = walk_cost ` {es. set es \<subseteq> edges nb S \<and> length es \<le> card S}"

definition rank :: "real set \<Rightarrow> real option \<Rightarrow> nat" where
  "rank V c = (case c of None \<Rightarrow> card V + 1 | Some d \<Rightarrow> card {v \<in> V. v < d})"

definition search_measure :: "('c \<Rightarrow> ('c \<times> real) list) \<Rightarrow> 'c set \<Rightarrow> 'c search_state \<Rightarrow> nat" where
  "search_measure nb S st =
     length (frontier st) + (\<Sum>n\<in>S. rank (cost_values nb S) (cost_so_far st n))"

text \<open>
  \<open>search_inv\<close> holds whenever the loop tests the frontier: the start has cost 0, the
  stored costs are costs of walks, and every cell of the frontier has a stored cost.
  \<open>relaxed st dc e\<close>: the cell of the edge \<open>e\<close> has a stored cost of at most \<open>dc\<close> plus
  the weight of \<open>e\<close>.
\<close>

definition search_inv :: "('c \<Rightarrow> ('c \<times> real) list) \<Rightarrow> 'c \<Rightarrow> 'c search_state \<Rightarrow> bool" where
  "search_inv nb start st \<longleftrightarrow>
     cost_so_far st start = Some 0 \<and> cost_inv nb start (cost_so_far st) \<and>
     (\<forall>e\<in>set (frontier st). cost_so_far st (snd e) \<noteq> None)"

definition relaxed :: "'c search_state \<Rightarrow> real \<Rightarrow> 'c \<times> real \<Rightarrow> bool" where
  "relaxed st dc e \<longleftrightarrow> (\<exists>dn. cost_so_far st (fst e) = Some dn \<and> dn \<le> dc + snd e)"






text \<open>An estimate for \<open>tri_neighbors\<close> and the goal 2 that is not zero at the start.\<close>

definition tri_heuristic :: "nat \<Rightarrow> nat \<Rightarrow> real" where
  "tri_heuristic a b = (if a = 0 \<and> b = 2 then 1 else 0)"

section \<open>Properties of the projection\<close>

lemma range_50_25: "py_range (- 50) 51 25 = Inr [- 50, - 25, 0, 25, 50]"
  by (simp add: py_range_def upt_rec)

text \<open>
  C8: with footprint size 50 (the constant of \<open>add_obstacle\<close>), grid scale 25, heading 0
  and position (100, 100), the cells added to the obstacle set are exactly the 25 cells
  \<open>(i, j)\<close> with \<open>i\<close> and \<open>j\<close> from 2 to 6: the 5 by 5 block centred at \<open>(4, 4)\<close>.
\<close>

theorem add_obstacle_scenario_4:
  "add_obstacle (g\<lparr>scale := 25\<rparr>)
     \<lparr>cube_id = i, pose_x = 100, pose_y = 100, angle_z_degrees = 0\<rparr> =
   Inr (g\<lparr>scale := 25,
           obstacles := obstacles g \<union>
             (\<lambda>(i, j). (real_of_int i, real_of_int j)) ` ({2..6} \<times> {2..6})\<rparr>)"
proof -
  have s: "{2..6::int} = {2, 3, 4, 5, 6}"
    by auto
  show ?thesis
    unfolding s
    by (simp add: add_obstacle_def range_50_25 rotate_point_def radians_def addObstacle_def
        Let_def insert_commute)
qed

lemma add_obstacle_demo:
  "add_obstacle demo_grid (demo_cube i) = Inr (demo_grid\<lparr>obstacles := demo_block\<rparr>)"
proof -
  have s: "{18..22::int} = {18, 19, 20, 21, 22}"
    by auto
  show ?thesis
    unfolding s demo_block_def
    by (simp add: add_obstacle_def demo_grid_def demo_cube_def range_50_25 rotate_point_def
        radians_def addObstacle_def Let_def insert_commute)
qed

lemma get_goal_demo:
  "get_goal (demo_grid\<lparr>obstacles := X\<rparr>) (demo_cube i) =
   Inr (demo_grid\<lparr>obstacles := insert (20, 18) X\<rparr>)"
  by (simp add: get_goal_def demo_grid_def demo_cube_def rotate_point_def radians_def
      addObstacle_def)

lemma demo_block_free: "(1, 0) \<notin> demo_block" "(1, 0) \<notin> insert (20, 18) demo_block"
  by (auto simp: demo_block_def)

lemma astar_demo:
  assumes "(1, 0) \<notin> X"
  shows "astar (demo_neighbors (demo_grid\<lparr>obstacles := X\<rparr>)) heuristic
           (demo_grid\<lparr>obstacles := X\<rparr>) =
         Some (Inr (demo_grid\<lparr>obstacles := X, visited := [(0, 0), (1, 0)]\<rparr>))"
  using assms
  apply (simp add: astar_def demo_grid_def astar_init_def)
  apply (subst astar_loop.simps)
  apply (simp add: demo_neighbors_def relax_def Let_def addVisited_def heuristic_def)
  apply (subst astar_loop.simps)
  apply (simp add: setPath_def addVisited_def reconstruct_path_def reconstruct_loop.simps
      Let_def)
  done

section \<open>Properties of the behaviour loop\<close>

text \<open>
  C3: an iteration with no cube observed and the path end not reached issues the move
  command and leaves the path index as it was. On the two-cell path the index is 0 before
  and after the iteration; it is not advanced by one.
\<close>

theorem path_index_not_advanced:
  "cozmoBehavior_step demo_neighbors demo_state None =
   Some (Inr (Continue (demo_state\<lparr>path_index := 0,
     commands := [SayText ''searching'', GoToPose 25 25 (arctan 1)]\<rparr>)))"
  by (simp add: cozmoBehavior_step_def search_cube_def follow_def demo_state_def
      demo_grid_def Let_def)

text \<open>
  C4: an iteration that observes the cube with the identity of the goal marker. The
  projected cell \<open>(20, 18)\<close> is added to the obstacle set, the goal list is still
  \<open>[(1, 0)]\<close>, and the search that follows ends at \<open>(1, 0)\<close>.
\<close>

theorem goal_marker_leaves_goals:
  "cozmoBehavior_step demo_neighbors demo_state (Some (demo_cube LightCube1Id)) =
   Some (Inr (Continue (demo_state\<lparr>
     grid := \<lparr>getStart = (0, 0), getGoals = [(1, 0)],
              obstacles = insert (20, 18) demo_block,
              visited = [(0, 0), (1, 0)], getPath = [(0, 0), (1, 0)], scale = 25\<rparr>,
     found_goal := True,
     commands := [SayText ''searching'', SayText ''Found a Cube'',
                  SetLights 1 blue_light, SayText ''Found the Goal'',
                  SayText ''Replanning'', GoToPose 25 25 (arctan 1)]\<rparr>)))"
  by (simp add: cozmoBehavior_step_def search_cube_def register_cube_def add_obstacle_demo
      get_goal_demo astar_demo demo_block_free follow_def LightCube1Id_def Let_def
      demo_state_def)
    (simp add: demo_grid_def demo_cube_def)

text \<open>
  C5: the path goes from \<open>(0, 0)\<close> to \<open>(1, 0)\<close>, so the second coordinates do not
  differ. The command has the displacement 25 on both axes: the y component is the
  difference of the first coordinates, not 0.
\<close>

theorem displacement_y_is_x:
  "follow demo_state =
   Inr (Continue (demo_state\<lparr>commands := [GoToPose 25 25 (arctan 1)]\<rparr>))"
  by (simp add: follow_def demo_state_def demo_grid_def Let_def)





section \<open>Properties of path reconstruction\<close>

lemma links_snoc:
  "links cf a (xs @ [b]) \<longleftrightarrow> links cf a xs \<and> cf b = Some (Some (last (a # xs)))"
  by (induction xs arbitrary: a) auto

lemma reconstruct_loop_chain:
  "links cf a rest \<Longrightarrow> start \<notin> set rest \<Longrightarrow>
   reconstruct_loop cf start (last (a # rest)) acc = reconstruct_loop cf start a (acc @ rev rest)"
proof (induction rest arbitrary: acc rule: rev_induct)
  case Nil
  then show ?case by simp
next
  case (snoc b rs)
  from snoc.prems have l: "links cf a rs" and b: "cf b = Some (Some (last (a # rs)))"
    and ns: "start \<notin> set rs" and nb: "b \<noteq> start"
    by (auto simp: links_snoc)
  have "reconstruct_loop cf start (last (a # rs @ [b])) acc =
        reconstruct_loop cf start (last (a # rs)) (acc @ [b])"
    using b nb by (subst reconstruct_loop.simps) simp
  also have "\<dots> = reconstruct_loop cf start a ((acc @ [b]) @ rev rs)"
    using snoc.IH [OF l ns] .
  finally show ?case by simp
qed

lemma reconstruct_path_chain:
  assumes "links cf start rest" "start \<notin> set rest"
  shows "reconstruct_path cf start (last (start # rest)) = Some (Inr (start # rest))"
proof -
  have "reconstruct_loop cf start (last (start # rest)) [] = Some (Inr (rev rest))"
    using reconstruct_loop_chain [OF assms, of "[]"]
    by (simp add: reconstruct_loop.simps)
  then show ?thesis
    by (simp add: reconstruct_path_def)
qed

lemma reconstruct_loop_cycle_aux:
  assumes "reconstruct_loop cf start cur acc = Some y"
  shows "(\<forall>c\<in>C. c \<noteq> start \<and> (\<exists>c'\<in>C. cf c = Some (Some c'))) \<longrightarrow> cur \<notin> C"
proof (rule reconstruct_loop.raw_induct
    [where P = "\<lambda>cf start cur acc y.
       (\<forall>c\<in>C. c \<noteq> start \<and> (\<exists>c'\<in>C. cf c = Some (Some c'))) \<longrightarrow> cur \<notin> C", OF _ assms])
  fix loop :: "('a \<rightharpoonup> 'a option) \<Rightarrow> 'a \<Rightarrow> 'a \<Rightarrow> 'a list \<Rightarrow> (error + 'a list) option"
  fix cf start cur acc y
  assume IH: "\<And>cf start cur acc y. loop cf start cur acc = Some y \<Longrightarrow>
      (\<forall>c\<in>C. c \<noteq> start \<and> (\<exists>c'\<in>C. cf c = Some (Some c'))) \<longrightarrow> cur \<notin> C"
  assume body: "(if cur \<noteq> start then
        (case cf cur of
           None \<Rightarrow> Some (Inl KeyError)
         | Some None \<Rightarrow> Some (Inl KeyError)
         | Some (Some prev) \<Rightarrow> loop cf start prev (acc @ [cur]))
      else Some (Inr acc)) = Some y"
  show "(\<forall>c\<in>C. c \<noteq> start \<and> (\<exists>c'\<in>C. cf c = Some (Some c'))) \<longrightarrow> cur \<notin> C"
  proof (intro impI notI)
    assume C: "\<forall>c\<in>C. c \<noteq> start \<and> (\<exists>c'\<in>C. cf c = Some (Some c'))" and cur: "cur \<in> C"
    then obtain c' where c': "c' \<in> C" "cf cur = Some (Some c')" "cur \<noteq> start"
      by blast
    with body have "loop cf start c' (acc @ [cur]) = Some y"
      by simp
    from IH [OF this] C c' show False
      by blast
  qed
qed

lemma reconstruct_path_cycle:
  assumes "\<forall>c\<in>C. c \<noteq> start \<and> (\<exists>c'\<in>C. cf c = Some (Some c'))" "goal \<in> C"
  shows "reconstruct_path cf start goal = None"
proof -
  have "reconstruct_loop cf start goal [] = None"
  proof (cases "reconstruct_loop cf start goal []")
    case (Some y)
    from reconstruct_loop_cycle_aux [OF this] assms show ?thesis by blast
  qed simp
  then show ?thesis by (simp add: reconstruct_path_def)
qed

text \<open>
  C7, as stated, fails: the predecessor of cell 1 is cell 1, the start is cell 0. The
  loop never meets the start and has no other exit.
\<close>

theorem reconstruct_path_loops:
  "reconstruct_path [1 \<mapsto> Some 1] (0::nat) 1 = None"
  by (rule reconstruct_path_cycle [where C = "{1}"]) auto

text \<open>
  C7, amended: when the predecessor chain from the goal reaches the start, the
  reconstruction returns the cells of the chain, from the start to the goal. The loop
  runs once for each cell of the chain after the start.
\<close>

theorem reconstruct_path_returns_chain:
  assumes "links cf start rest" and "start \<notin> set rest"
  shows "reconstruct_path cf start (last (start # rest)) = Some (Inr (start # rest))"
  using assms by (rule reconstruct_path_chain)

theorem reconstruct_path_returns_chain_witness:
  "links [1 \<mapsto> Some 0, 2 \<mapsto> Some 1] (0::nat) [1, 2] \<and> (0::nat) \<notin> set [1, 2] \<and>
   reconstruct_path [1 \<mapsto> Some 0, 2 \<mapsto> Some 1] (0::nat) 2 = Some (Inr [0, 1, 2])"
proof -
  have l: "links [1 \<mapsto> Some 0, 2 \<mapsto> Some 1] (0::nat) [1, 2]"
    by simp
  have n: "(0::nat) \<notin> set [1, 2]"
    by simp
  show ?thesis
    using reconstruct_path_returns_chain [OF l n] l n by simp
qed

section \<open>Properties of one relaxation\<close>




section \<open>The search and the goal list\<close>





section \<open>Termination of the search\<close>

lemma walk_end_Nil [simp]: "walk_end a [] = a"
  by (simp add: walk_end_def)

lemma walk_end_Cons [simp]: "walk_end a (e # es) = walk_end (fst e) es"
  by (simp add: walk_end_def)

lemma walk_end_append: "walk_end a (es @ fs) = walk_end (walk_end a es) fs"
  by (induction es arbitrary: a) simp_all

lemma walk_append: "walk nb a (es @ fs) \<longleftrightarrow> walk nb a es \<and> walk nb (walk_end a es) fs"
  by (induction es arbitrary: a) auto

lemma walk_cost_Nil [simp]: "walk_cost [] = 0"
  by (simp add: walk_cost_def)

lemma walk_cost_Cons [simp]: "walk_cost (e # es) = snd e + walk_cost es"
  by (simp add: walk_cost_def)

lemma walk_cost_append: "walk_cost (es @ fs) = walk_cost es + walk_cost fs"
  by (simp add: walk_cost_def)

lemma walk_in_graph:
  assumes "grid_graph nb S"
  shows "a \<in> S \<Longrightarrow> walk nb a es \<Longrightarrow>
    set (map fst es) \<subseteq> S \<and> set es \<subseteq> edges nb S \<and> (\<forall>e\<in>set es. 0 < snd e) \<and> walk_end a es \<in> S"
proof (induction es arbitrary: a)
  case Nil
  then show ?case by simp
next
  case (Cons e es)
  from Cons.prems have e: "e \<in> set (nb a)" and w: "walk nb (fst e) es"
    by simp_all
  from assms Cons.prems(1) e have fe: "fst e \<in> S" "0 < snd e"
    by (auto simp: grid_graph_def)
  from Cons.IH [OF fe(1) w] fe e Cons.prems(1) show ?case
    by (auto simp: edges_def)
qed

lemma walk_cost_nonneg: "\<forall>e\<in>set es. 0 < snd e \<Longrightarrow> 0 \<le> walk_cost es"
  by (induction es) (auto simp: less_imp_le add_nonneg_nonneg)

lemma walk_cost_take_le:
  assumes "\<forall>e\<in>set es. 0 < snd e"
  shows "walk_cost (take k es) \<le> walk_cost es"
proof -
  have "walk_cost es = walk_cost (take k es) + walk_cost (drop k es)"
    by (metis append_take_drop_id walk_cost_append)
  moreover have "0 \<le> walk_cost (drop k es)"
    using assms by (intro walk_cost_nonneg) (auto dest: in_set_dropD)
  ultimately show ?thesis by simp
qed

lemma finite_cost_values: "grid_graph nb S \<Longrightarrow> finite (cost_values nb S)"
  unfolding cost_values_def edges_def grid_graph_def
  by (intro finite_imageI finite_lists_length_le) auto

lemma good_cost_value:
  assumes g: "grid_graph nb S" and s: "start \<in> S" and es: "good nb start cs es"
  shows "walk_cost es \<in> cost_values nb S"
proof -
  from es have w: "walk nb start es" and d: "distinct (start # map fst es)"
    by (simp_all add: good_def)
  from walk_in_graph [OF g s w] s have sub: "set (start # map fst es) \<subseteq> S" "set es \<subseteq> edges nb S"
    by auto
  from g have "finite S" by (simp add: grid_graph_def)
  with sub(1) have "card (set (start # map fst es)) \<le> card S"
    by (intro card_mono)
  with d have "length (start # map fst es) \<le> card S"
    by (simp only: distinct_card)
  then have "length es \<le> card S" by simp
  with sub(2) show ?thesis
    by (auto simp: cost_values_def)
qed

lemma rank_less_Some:
  assumes "finite V" "new \<in> V" "new < old"
  shows "rank V (Some new) < rank V (Some old)"
proof -
  have "{v \<in> V. v < new} \<subset> {v \<in> V. v < old}"
    using assms by auto
  with assms(1) show ?thesis
    by (simp add: rank_def psubset_card_mono)
qed

lemma rank_less_None:
  assumes "finite V"
  shows "rank V (Some new) < rank V None"
proof -
  have "card {v \<in> V. v < new} \<le> card V"
    using assms by (intro card_mono) auto
  then show ?thesis
    by (simp add: rank_def)
qed

lemma below_refl: "below cs cs"
  by (auto simp: below_def)

lemma below_trans: "below cs cs' \<Longrightarrow> below cs' cs'' \<Longrightarrow> below cs cs''"
  unfolding below_def by (meson order_trans)

lemma below_update:
  assumes "cs n = None \<or> (\<exists>old. cs n = Some old \<and> new \<le> old)"
  shows "below cs (cs(n \<mapsto> new))"
  using assms by (auto simp: below_def)

lemma good_mono: "below cs cs' \<Longrightarrow> good nb start cs es \<Longrightarrow> good nb start cs' es"
  unfolding good_def below_def by (meson order_trans)

lemma walk_end_take:
  "k \<le> length es \<Longrightarrow> walk_end a (take k es) = (a # map fst es) ! k"
proof (induction es arbitrary: a k)
  case Nil
  then show ?case by simp
next
  case (Cons e es)
  then show ?case by (cases k) simp_all
qed

lemma walk_cells_prefix:
  assumes "x \<in> set (a # map fst es)"
  shows "\<exists>k\<le>length es. walk_end a (take k es) = x"
proof -
  from assms obtain k where k: "k < length (a # map fst es)" "(a # map fst es) ! k = x"
    by (meson in_set_conv_nth)
  then have "k \<le> length es" by simp
  with k(2) walk_end_take [of k es a] show ?thesis by auto
qed

lemma cost_inv_facts:
  assumes g: "grid_graph nb S" and s: "start \<in> S" and inv: "cost_inv nb start cs"
    and n: "cs n = Some d"
  shows "0 \<le> d" "n \<in> S" "d \<in> cost_values nb S"
proof -
  from inv n obtain es where es: "good nb start cs es" "walk_end start es = n" "walk_cost es = d"
    by (auto simp: cost_inv_def)
  from es(1) have w: "walk nb start es" by (simp add: good_def)
  from walk_in_graph [OF g s w] es(2) have pos: "\<forall>e\<in>set es. 0 < snd e" and "n \<in> S"
    by auto
  then show "n \<in> S" by simp
  from walk_cost_nonneg [OF pos] es(3) show "0 \<le> d" by simp
  from good_cost_value [OF g s es(1)] es(3) show "d \<in> cost_values nb S" by simp
qed

lemma cost_inv_update:
  assumes g: "grid_graph nb S" and s: "start \<in> S" and inv: "cost_inv nb start cs"
    and cur: "cs cur = Some dc" and e: "(n, w) \<in> set (nb cur)"
    and lower: "cs n = None \<or> (\<exists>old. cs n = Some old \<and> dc + w < old)"
  shows "cost_inv nb start (cs(n \<mapsto> dc + w))"
proof -
  let ?cs = "cs(n \<mapsto> dc + w)"
  have b: "below cs ?cs"
    using lower by (intro below_update) auto
  from cost_inv_facts [OF g s inv cur] have curS: "cur \<in> S" by simp
  with g e have "0 < snd (n, w)" unfolding grid_graph_def by blast
  then have w: "0 < w" by simp
  from inv cur obtain es where es: "good nb start cs es" "walk_end start es = cur" "walk_cost es = dc"
    by (auto simp: cost_inv_def)
  from es(1) have wk: "walk nb start es" and dist: "distinct (start # map fst es)"
    and pre: "\<forall>k\<le>length es. \<exists>d. cs (walk_end start (take k es)) = Some d \<and> d \<le> walk_cost (take k es)"
    by (simp_all add: good_def)
  from walk_in_graph [OF g s wk] have pos: "\<forall>e\<in>set es. 0 < snd e" by simp
  have fresh: "n \<notin> set (start # map fst es)"
  proof
    assume "n \<in> set (start # map fst es)"
    from walk_cells_prefix [OF this] obtain k where k: "k \<le> length es" "walk_end start (take k es) = n"
      by blast
    with pre obtain d where d: "cs n = Some d" "d \<le> walk_cost (take k es)"
      by blast
    from walk_cost_take_le [OF pos, of k] d(2) es(3) have "d \<le> dc" by simp
    with w d(1) lower show False by auto
  qed
  let ?es = "es @ [(n, w)]"
  have "good nb start ?cs ?es"
    unfolding good_def
  proof (intro conjI allI impI)
    show "walk nb start ?es"
      using wk e es(2) by (simp add: walk_append)
    show "distinct (start # map fst ?es)"
      using dist fresh by auto
  next
    fix k assume k: "k \<le> length ?es"
    show "\<exists>d. ?cs (walk_end start (take k ?es)) = Some d \<and> d \<le> walk_cost (take k ?es)"
    proof (cases "k \<le> length es")
      case True
      with pre obtain d where d: "cs (walk_end start (take k es)) = Some d" "d \<le> walk_cost (take k es)"
        by blast
      from b d(1) obtain d' where "?cs (walk_end start (take k es)) = Some d'" "d' \<le> d"
        unfolding below_def by blast
      with d(2) True show ?thesis by auto
    next
      case False
      with k have "take k ?es = ?es" by simp
      then show ?thesis
        using es(2,3) by (simp add: walk_end_append walk_cost_append)
    qed
  qed
  moreover have "walk_end start ?es = n" "walk_cost ?es = dc + w"
    using es(3) by (simp_all add: walk_end_append walk_cost_append)
  ultimately have new: "\<exists>es'. good nb start ?cs es' \<and> walk_end start es' = n \<and> walk_cost es' = dc + w"
    by blast
  show ?thesis
    unfolding cost_inv_def
  proof (intro allI impI)
    fix m d assume m: "?cs m = Some d"
    show "\<exists>es. good nb start ?cs es \<and> walk_end start es = m \<and> walk_cost es = d"
    proof (cases "m = n")
      case True
      with m new show ?thesis by simp
    next
      case False
      with m have "cs m = Some d" by simp
      with inv obtain es' where "good nb start cs es'" "walk_end start es' = m" "walk_cost es' = d"
        by (auto simp: cost_inv_def)
      with good_mono [OF b] show ?thesis by blast
    qed
  qed
qed

lemma relax_cases:
  assumes "cost_so_far st cur = Some dc"
  obtains (keep) old where "cost_so_far st n = Some old" "old \<le> dc + w"
      "relax h goal cur (n, w) st = Inr st"
  | (update) "cost_so_far st n = None \<or> (\<exists>old. cost_so_far st n = Some old \<and> dc + w < old)"
      "relax h goal cur (n, w) st =
         Inr (st\<lparr>cost_so_far := (cost_so_far st)(n \<mapsto> dc + w),
                 frontier := frontier st @ [(dc + w + h n goal, n)],
                 came_from := (came_from st)(n \<mapsto> Some cur)\<rparr>)"
proof (cases "case cost_so_far st n of None \<Rightarrow> True | Some old \<Rightarrow> dc + w < old")
  case True
  with assms show thesis
    by (intro update) (auto simp: relax_def Let_def split: option.splits)
next
  case False
  then obtain old where "cost_so_far st n = Some old" "old \<le> dc + w"
    by (auto split: option.splits)
  with assms show thesis
    by (intro keep [of old]) (auto simp: relax_def Let_def)
qed

lemma expand_rule:
  assumes "P st" and "set es \<subseteq> E"
    and step: "\<And>st e. P st \<Longrightarrow> e \<in> E \<Longrightarrow> \<exists>st'. relax h goal cur e st = Inr st' \<and> P st' \<and> Q e st'"
    and stable: "\<And>st e e' st'. P st \<Longrightarrow> Q e st \<Longrightarrow> e' \<in> E \<Longrightarrow>
        relax h goal cur e' st = Inr st' \<Longrightarrow> Q e st'"
  shows "\<exists>st'. expand h goal cur es st = Inr st' \<and> P st' \<and> (\<forall>e\<in>set es. Q e st')"
proof -
  have "\<exists>st'. expand h goal cur es st = Inr st' \<and> P st' \<and> (\<forall>e\<in>set es \<union> D. Q e st')"
    if "P st" "set es \<subseteq> E" "\<forall>e\<in>D. Q e st" for D
    using that
  proof (induction es arbitrary: st D)
    case Nil
    then show ?case by simp
  next
    case (Cons e es)
    from Cons.prems have e: "e \<in> E" and es: "set es \<subseteq> E" by auto
    from step [OF Cons.prems(1) e] obtain st1 where
      st1: "relax h goal cur e st = Inr st1" "P st1" "Q e st1"
      by blast
    have "\<forall>x\<in>insert e D. Q x st1"
      using st1(3) Cons.prems(3) stable [OF Cons.prems(1) _ e st1(1)] by blast
    from Cons.IH [OF st1(2) es this] st1(1) show ?case
      by auto
  qed
  from this [of "{}"] assms(1,2) show ?thesis by simp
qed

lemma sum_rank_less:
  assumes "finite S" "n \<in> S" "f' n < (f n :: nat)" "\<And>m. m \<noteq> n \<Longrightarrow> f' m = f m"
  shows "sum f' S + 1 \<le> sum f S"
proof -
  have "sum f' S = f' n + sum f' (S - {n})" "sum f S = f n + sum f (S - {n})"
    using assms(1,2) by (simp_all add: sum.remove)
  moreover have "sum f' (S - {n}) = sum f (S - {n})"
    using assms(4) by (intro sum.cong) auto
  ultimately show ?thesis using assms(3) by simp
qed

lemma relax_search_inv:
  assumes g: "grid_graph nb S" and s: "start \<in> S"
    and inv: "search_inv nb start st"
    and cur: "cost_so_far st cur = Some dc" and e: "e \<in> set (nb cur)"
  shows "\<exists>st'. relax h goal cur e st = Inr st' \<and> search_inv nb start st' \<and>
     cost_so_far st' cur = Some dc \<and> search_measure nb S st' \<le> search_measure nb S st \<and>
     below (cost_so_far st) (cost_so_far st') \<and> relaxed st' dc e"
proof -
  obtain n w where nw: "e = (n, w)" by (cases e)
  from inv have st0: "cost_so_far st start = Some 0" and ci: "cost_inv nb start (cost_so_far st)"
    and fr: "\<forall>e\<in>set (frontier st). cost_so_far st (snd e) \<noteq> None"
    by (simp_all add: search_inv_def)
  from cost_inv_facts [OF g s ci cur] have dc0: "0 \<le> dc" and curS: "cur \<in> S"
    by simp_all
  from g curS e have "fst e \<in> S \<and> 0 < snd e" unfolding grid_graph_def by blast
  with nw have nS: "n \<in> S" and w: "0 < w" by simp_all
  show ?thesis
  proof (rule relax_cases [OF cur, of n w h goal])
    fix old
    assume "cost_so_far st n = Some old" "old \<le> dc + w" "relax h goal cur (n, w) st = Inr st"
    with inv cur nw show ?thesis
      by (auto simp: below_refl relaxed_def)
  next
    assume update: "cost_so_far st n = None \<or> (\<exists>old. cost_so_far st n = Some old \<and> dc + w < old)"
      "relax h goal cur (n, w) st =
         Inr (st\<lparr>cost_so_far := (cost_so_far st)(n \<mapsto> dc + w),
                 frontier := frontier st @ [(dc + w + h n goal, n)],
                 came_from := (came_from st)(n \<mapsto> Some cur)\<rparr>)"
    let ?st = "st\<lparr>cost_so_far := (cost_so_far st)(n \<mapsto> dc + w),
                 frontier := frontier st @ [(dc + w + h n goal, n)],
                 came_from := (came_from st)(n \<mapsto> Some cur)\<rparr>"
    from update(1) st0 dc0 w have ns: "n \<noteq> start" by auto
    from update(1) cur w have nc: "n \<noteq> cur" by auto
    from e nw have e': "(n, w) \<in> set (nb cur)" by simp
    have ci': "cost_inv nb start (cost_so_far ?st)"
      using cost_inv_update [OF g s ci cur e' update(1)] by simp
    have inv': "search_inv nb start ?st"
      using ci' st0 ns fr by (auto simp: search_inv_def)
    have bel: "below (cost_so_far st) (cost_so_far ?st)"
      using update(1) by (auto intro!: below_update)
    have newV: "dc + w \<in> cost_values nb S"
      using cost_inv_facts(3) [OF g s ci', of n "dc + w"] by simp
    have fin: "finite (cost_values nb S)" by (rule finite_cost_values [OF g])
    have rk: "rank (cost_values nb S) (cost_so_far ?st n) < rank (cost_values nb S) (cost_so_far st n)"
      using update(1) rank_less_Some [OF fin newV] rank_less_None [OF fin, of "dc + w"] by auto
    from g have finS: "finite S" by (simp add: grid_graph_def)
    have "(\<Sum>m\<in>S. rank (cost_values nb S) (cost_so_far ?st m)) + 1
        \<le> (\<Sum>m\<in>S. rank (cost_values nb S) (cost_so_far st m))"
      by (rule sum_rank_less
          [where f' = "\<lambda>m. rank (cost_values nb S) (cost_so_far ?st m)"
             and f = "\<lambda>m. rank (cost_values nb S) (cost_so_far st m)" and n = n])
        (use finS nS rk in simp_all)
    then have meas: "search_measure nb S ?st \<le> search_measure nb S st"
      by (simp add: search_measure_def)
    show ?thesis
      using update(2) inv' meas bel nc cur nw by (simp add: relaxed_def)
  qed
qed


lemma expand_search_inv:
  assumes g: "grid_graph nb S" and s: "start \<in> S"
    and inv: "search_inv nb start st"
    and cur: "cost_so_far st cur = Some dc"
  shows "\<exists>st'. expand h goal cur (nb cur) st = Inr st' \<and> search_inv nb start st' \<and>
     search_measure nb S st' \<le> search_measure nb S st"
proof -
  let ?P = "\<lambda>st'. search_inv nb start st' \<and> cost_so_far st' cur = Some dc \<and>
     search_measure nb S st' \<le> search_measure nb S st"
  have "\<exists>st'. expand h goal cur (nb cur) st = Inr st' \<and> ?P st' \<and> (\<forall>e\<in>set (nb cur). True)"
  proof (rule expand_rule [where P = ?P and E = "set (nb cur)" and Q = "\<lambda>e st. True"])
    show "?P st" using inv cur by simp
    show "set (nb cur) \<subseteq> set (nb cur)" by simp
  next
    fix st1 e assume P: "?P st1" and e: "e \<in> set (nb cur)"
    from P relax_search_inv [OF g s _ _ e, of st1 dc h goal]
    show "\<exists>st'. relax h goal cur e st1 = Inr st' \<and> ?P st' \<and> True"
      by (meson order_trans)
  qed simp
  then show ?thesis by blast
qed

lemma min_list_in: "xs \<noteq> [] \<Longrightarrow> min_list xs \<in> set (xs :: 'a::linorder list)"
  by (simp add: min_list_Min)


lemma pop_search_inv:
  fixes st :: "'c::linorder search_state"
  assumes "search_inv nb start st" "frontier st \<noteq> []"
  shows "search_inv nb start (st\<lparr>frontier := remove1 (min_list (frontier st)) (frontier st)\<rparr>)"
    "search_measure nb S (st\<lparr>frontier := remove1 (min_list (frontier st)) (frontier st)\<rparr>)
       < search_measure nb S st"
    "\<exists>dc. cost_so_far st (snd (min_list (frontier st))) = Some dc"
proof -
  from assms(2) have top: "min_list (frontier st) \<in> set (frontier st)"
    by (rule min_list_in)
  from assms(1) show "search_inv nb start (st\<lparr>frontier := remove1 (min_list (frontier st)) (frontier st)\<rparr>)"
    by (auto simp: search_inv_def dest: notin_set_remove1)
  from top assms(2) show "search_measure nb S (st\<lparr>frontier := remove1 (min_list (frontier st)) (frontier st)\<rparr>)
       < search_measure nb S st"
    using length_pos_if_in_set [OF top]
    by (simp add: search_measure_def length_remove1)
  from assms(1) top show "\<exists>dc. cost_so_far st (snd (min_list (frontier st))) = Some dc"
    by (auto simp: search_inv_def)
qed

lemma step_search_inv:
  fixes st :: "'c::linorder search_state"
  assumes g: "grid_graph nb S" and s: "start \<in> S"
    and inv: "search_inv nb start st" and ne: "frontier st \<noteq> []"
  shows "\<exists>st2. expand h goal (snd (min_list (frontier st))) (nb (snd (min_list (frontier st))))
            (st\<lparr>frontier := remove1 (min_list (frontier st)) (frontier st)\<rparr>) = Inr st2 \<and>
          search_inv nb start st2 \<and> search_measure nb S st2 < search_measure nb S st"
proof -
  let ?st1 = "st\<lparr>frontier := remove1 (min_list (frontier st)) (frontier st)\<rparr>"
  from pop_search_inv(3) [OF inv ne] obtain dc
    where "cost_so_far st (snd (min_list (frontier st))) = Some dc" by blast
  then have cur: "cost_so_far ?st1 (snd (min_list (frontier st))) = Some dc" by simp
  from expand_search_inv [OF g s pop_search_inv(1) [OF inv ne] cur, of h goal]
    pop_search_inv(2) [OF inv ne, of S]
  show ?thesis
    by (meson le_less_trans)
qed

lemma astar_loop_runs:
  fixes mu :: "'c::linorder search_state \<Rightarrow> nat"
  assumes step: "\<And>st. J st \<Longrightarrow> frontier st \<noteq> [] \<Longrightarrow> snd (min_list (frontier st)) \<noteq> goal \<Longrightarrow>
      \<exists>st2. expand h goal (snd (min_list (frontier st))) (nb (snd (min_list (frontier st))))
            (st\<lparr>frontier := remove1 (min_list (frontier st)) (frontier st)\<rparr>) = Inr st2 \<and>
          J st2 \<and> mu st2 < mu st"
    and "J st"
  shows "\<exists>st' g'. J st' \<and>
     (frontier st' = [] \<and>
        astar_loop nb h start goal st g = Some (Inl (ValueError ''No Path Found'')) \<or>
      frontier st' \<noteq> [] \<and> snd (min_list (frontier st')) = goal \<and>
        astar_loop nb h start goal st g =
          (case reconstruct_path (came_from st') start goal of
             None \<Rightarrow> None
           | Some (Inl e) \<Rightarrow> Some (Inl e)
           | Some (Inr p) \<Rightarrow> Some (Inr (setPath g' p))))"
  using assms(2)
proof (induction "mu st" arbitrary: st g rule: less_induct)
  case less
  show ?case
  proof (cases "frontier st = []")
    case True
    with less.prems show ?thesis
      by (subst astar_loop.simps) auto
  next
    case ne: False
    show ?thesis
    proof (cases "snd (min_list (frontier st)) = goal")
      case True
      have "astar_loop nb h start goal st g =
          (case reconstruct_path (came_from st) start goal of
             None \<Rightarrow> None
           | Some (Inl e) \<Rightarrow> Some (Inl e)
           | Some (Inr p) \<Rightarrow> Some (Inr (setPath (addVisited g goal) p)))"
        using ne True by (subst astar_loop.simps) (auto simp: Let_def split: option.splits sum.splits)
      with less.prems ne True show ?thesis by blast
    next
      case False
      from step [OF less.prems ne False] obtain st2 where
        st2: "expand h goal (snd (min_list (frontier st))) (nb (snd (min_list (frontier st))))
            (st\<lparr>frontier := remove1 (min_list (frontier st)) (frontier st)\<rparr>) = Inr st2"
          "J st2" "mu st2 < mu st"
        by blast
      have "astar_loop nb h start goal st g =
          astar_loop nb h start goal st2 (addVisited g (snd (min_list (frontier st))))"
        using ne False st2(1) by (subst astar_loop.simps) (simp add: Let_def)
      with less.hyps [OF st2(3) st2(2), of "addVisited g (snd (min_list (frontier st)))"]
      show ?thesis by simp
    qed
  qed
qed

lemma astar_init_search_inv: "search_inv nb start (astar_init start)"
proof -
  have "good nb start [start \<mapsto> 0::real] []"
    by (simp add: good_def)
  then have "cost_inv nb start [start \<mapsto> 0::real]"
    unfolding cost_inv_def
  proof (intro allI impI)
    fix n d assume "[start \<mapsto> 0::real] n = Some d"
    then have "n = start" "d = 0" by (auto split: if_splits)
    with \<open>good nb start [start \<mapsto> 0::real] []\<close>
    show "\<exists>es. good nb start [start \<mapsto> 0::real] es \<and> walk_end start es = n \<and> walk_cost es = d"
      by (intro exI [of _ "[]"]) simp
  qed
  then show ?thesis
    by (simp add: search_inv_def astar_init_def)
qed

lemma search_inv_reachable:
  assumes "search_inv nb start st" "cost_so_far st n = Some d"
  shows "\<exists>es. walk nb start es \<and> walk_end start es = n"
  using assms unfolding search_inv_def cost_inv_def good_def by blast

lemma unreachable_outside:
  assumes "grid_graph nb S" "a \<in> S" "b \<notin> S"
  shows "\<not> (\<exists>es. walk nb a es \<and> walk_end a es = b)"
  using walk_in_graph [OF assms(1,2)] assms(3) by blast

lemma tri_graph: "grid_graph tri_neighbors {0, 1, 2}"
  by (simp add: grid_graph_def tri_neighbors_def)

text \<open>
  C2: on a grid of the data model whose goal (the first of the goal list) is not reachable
  from the start, the search returns, and what it returns is the error
  \<open>ValueError('No Path Found')\<close>: no path is stored.
\<close>

theorem astar_no_path:
  assumes g: "grid_graph nb S" and s: "getStart g \<in> S"
    and goals: "getGoals g = goal # rest"
    and unreachable: "\<not> (\<exists>es. walk nb (getStart g) es \<and> walk_end (getStart g) es = goal)"
  shows "astar nb h g = Some (Inl (ValueError ''No Path Found''))"
proof -
  let ?J = "search_inv nb (getStart g)"
  have "\<exists>st' g'. ?J st' \<and>
     (frontier st' = [] \<and>
        astar_loop nb h (getStart g) goal (astar_init (getStart g)) g = Some (Inl (ValueError ''No Path Found'')) \<or>
      frontier st' \<noteq> [] \<and> snd (min_list (frontier st')) = goal \<and>
        astar_loop nb h (getStart g) goal (astar_init (getStart g)) g =
          (case reconstruct_path (came_from st') (getStart g) goal of
             None \<Rightarrow> None
           | Some (Inl e) \<Rightarrow> Some (Inl e)
           | Some (Inr p) \<Rightarrow> Some (Inr (setPath g' p))))"
  proof (rule astar_loop_runs [where J = ?J and mu = "search_measure nb S"])
    show "?J (astar_init (getStart g))" by (rule astar_init_search_inv)
  next
    fix st assume "?J st" "frontier st \<noteq> []"
    then show "\<exists>st2. expand h goal (snd (min_list (frontier st))) (nb (snd (min_list (frontier st))))
            (st\<lparr>frontier := remove1 (min_list (frontier st)) (frontier st)\<rparr>) = Inr st2 \<and>
          ?J st2 \<and> search_measure nb S st2 < search_measure nb S st"
      by (rule step_search_inv [OF g s])
  qed
  then obtain st' where st': "?J st'"
    "frontier st' = [] \<and>
        astar_loop nb h (getStart g) goal (astar_init (getStart g)) g = Some (Inl (ValueError ''No Path Found'')) \<or>
      frontier st' \<noteq> [] \<and> snd (min_list (frontier st')) = goal"
    by blast
  have "\<not> (frontier st' \<noteq> [] \<and> snd (min_list (frontier st')) = goal)"
  proof
    assume a: "frontier st' \<noteq> [] \<and> snd (min_list (frontier st')) = goal"
    with pop_search_inv(3) [OF st'(1)] obtain dc where "cost_so_far st' goal = Some dc"
      by auto
    from search_inv_reachable [OF st'(1) this] unreachable show False by blast
  qed
  with st'(2) goals show ?thesis
    by (simp add: astar_def)
qed

theorem astar_no_path_witness:
  "grid_graph tri_neighbors {0, 1, 2} \<and> getStart (tri_grid [3]) \<in> {0, 1, 2} \<and>
   getGoals (tri_grid [3]) = 3 # [] \<and>
   \<not> (\<exists>es. walk tri_neighbors (getStart (tri_grid [3])) es \<and>
          walk_end (getStart (tri_grid [3])) es = 3) \<and>
   astar tri_neighbors (\<lambda>a b. 0) (tri_grid [3]) = Some (Inl (ValueError ''No Path Found''))"
proof -
  have s: "getStart (tri_grid [3]) \<in> {0, 1, 2}" and gs: "getGoals (tri_grid [3]) = 3 # []"
    by (simp_all add: tri_grid_def)
  have u: "\<not> (\<exists>es. walk tri_neighbors (getStart (tri_grid [3])) es \<and>
          walk_end (getStart (tri_grid [3])) es = 3)"
    by (rule unreachable_outside [OF tri_graph s]) simp
  show ?thesis
    using astar_no_path [OF tri_graph s gs u] tri_graph s gs u by simp
qed

section \<open>The path found has the least cost\<close>












lemma tri_run:
  "astar tri_neighbors tri_heuristic (tri_grid [2]) =
   Some (Inr ((tri_grid [2])\<lparr>visited := [0, 1, 2], getPath := [0, 1, 2]\<rparr>))"
  apply (simp add: astar_def tri_grid_def astar_init_def)
  apply (subst astar_loop.simps)
  apply (simp add: tri_neighbors_def tri_heuristic_def relax_def Let_def addVisited_def)
  apply (subst astar_loop.simps)
  apply (simp add: tri_neighbors_def tri_heuristic_def relax_def Let_def addVisited_def)
  apply (subst astar_loop.simps)
  apply (simp add: setPath_def addVisited_def reconstruct_path_def reconstruct_loop.simps
      Let_def)
  done

end
